theory Spec2Isabelle
  imports Complex_Main "HOL-Library.AList"
begin

section \<open>Configuration (src/config.py)\<close>

text \<open>
  \<^verbatim>\<open>OptimizerConfig\<close> is a plain dataclass: six fields, no \<^verbatim>\<open>__post_init__\<close>, no
  validation. Python floats are modelled as exact rationals.
\<close>

record OptimizerConfig =
  redis_host :: string
  redis_port :: int
  cache_ttl :: int
  prediction_threshold :: rat
  aws_region :: string
  agent_ids :: "string list"

text \<open>
  The field defaults when no environment variable is set. \<^verbatim>\<open>"".split(",")\<close> is the
  one-element list holding the empty string.
\<close>

definition default_config :: OptimizerConfig where
  "default_config =
     \<lparr>redis_host = ''localhost'', redis_port = 6379, cache_ttl = 300,
      prediction_threshold = 7 / 10, aws_region = ''us-east-1'', agent_ids = [[]]\<rparr>"

datatype error = ZeroDivisionError | IndexError | RedisError | BedrockError

section \<open>Predictive router (src/router.py)\<close>

text \<open>
  A \<^verbatim>\<open>Counter\<close> is a dict, and a Python dict keeps its keys in insertion order: it is
  an association list in which a new key goes to the end and an assignment to a known key
  keeps its place (\<^const>\<open>AList.update\<close>). \<^verbatim>\<open>_transitions\<close> is a dict of counters.
\<close>

type_synonym counter = "(string \<times> nat) list"

record PredictiveRouter =
  transitions :: "(string \<times> counter) list"
  total_traces :: nat

definition new_router :: PredictiveRouter where
  "new_router = \<lparr>transitions = [], total_traces = 0\<rparr>"

text \<open>Reading a missing key of a \<^verbatim>\<open>Counter\<close> gives 0.\<close>

definition counter_get :: "counter \<Rightarrow> string \<Rightarrow> nat" where
  "counter_get c k = (case map_of c k of None \<Rightarrow> 0 | Some n \<Rightarrow> n)"

text \<open>
  The counter of the transitions that leave an agent; the \<^verbatim>\<open>defaultdict\<close> supplies
  an empty counter for an agent it has not seen.
\<close>

definition outgoing :: "PredictiveRouter \<Rightarrow> string \<Rightarrow> counter" where
  "outgoing r a = (case map_of (transitions r) a of None \<Rightarrow> [] | Some c \<Rightarrow> c)"

text \<open>\<^verbatim>\<open>self._transitions[from_agent][to_agent] += 1; self._total_traces += 1\<close>\<close>

definition record_transition :: "PredictiveRouter \<Rightarrow> string \<Rightarrow> string \<Rightarrow> PredictiveRouter" where
  "record_transition r from_agent to_agent =
     (let c = outgoing r from_agent;
          c' = AList.update to_agent (counter_get c to_agent + 1) c
      in r\<lparr>transitions := AList.update from_agent c' (transitions r),
            total_traces := total_traces r + 1\<rparr>)"

text \<open>
  \<^verbatim>\<open>for i in range(len(agent_sequence) - 1):
      self.record_transition(agent_sequence[i], agent_sequence[i + 1])\<close>
  The range is empty for the empty sequence, as the truncating subtraction on \<open>nat\<close> is.
\<close>

definition ingest_trace :: "PredictiveRouter \<Rightarrow> string list \<Rightarrow> PredictiveRouter" where
  "ingest_trace r agent_sequence =
     fold (\<lambda>i r'. record_transition r' (agent_sequence ! i) (agent_sequence ! (i + 1)))
       [0 ..< length agent_sequence - 1] r"

text \<open>
  \<^verbatim>\<open>counts.most_common(1)\<close> is \<^verbatim>\<open>heapq.nlargest(1, counts.items(), key=itemgetter(1))\<close>,
  which for one element is \<^verbatim>\<open>max(it, key=key)\<close>: a left-to-right scan that replaces
  the running maximum only by a strictly greater item.
\<close>

fun max_by_count :: "string \<times> nat \<Rightarrow> counter \<Rightarrow> string \<times> nat" where
  "max_by_count best [] = best"
| "max_by_count best (x # xs) = max_by_count (if snd best < snd x then x else best) xs"

definition most_common1 :: "counter \<Rightarrow> (string \<times> nat) list" where
  "most_common1 c = (case c of [] \<Rightarrow> [] | x # xs \<Rightarrow> [max_by_count x xs])"

text \<open>
  \<^verbatim>\<open>predict_next\<close>. \<^verbatim>\<open>not counts\<close> holds for \<^verbatim>\<open>None\<close> and for the empty counter;
  \<^verbatim>\<open>[0]\<close> on an empty list and a division by a zero total raise.
\<close>

definition predict_next ::
  "OptimizerConfig \<Rightarrow> PredictiveRouter \<Rightarrow> string \<Rightarrow> error + (string option \<times> rat)" where
  "predict_next cfg r current_agent =
     (case map_of (transitions r) current_agent of
        None \<Rightarrow> Inr (None, 0)
      | Some counts \<Rightarrow>
          if counts = [] then Inr (None, 0)
          else
            let total = sum_list (map snd counts) in
            (case most_common1 counts of
               [] \<Rightarrow> Inl IndexError
             | (best_agent, best_count) # _ \<Rightarrow>
                 if total = 0 then Inl ZeroDivisionError
                 else
                   let confidence = of_nat best_count / of_nat total in
                   if prediction_threshold cfg \<le> confidence
                   then Inr (Some best_agent, confidence)
                   else Inr (None, confidence)))"

text \<open>
  \<^verbatim>\<open>should_preload\<close>: \<^verbatim>\<open>agent_id if agent_id else None\<close>, so the empty agent
  identifier is turned into \<^verbatim>\<open>None\<close> as well.
\<close>

definition should_preload ::
  "OptimizerConfig \<Rightarrow> PredictiveRouter \<Rightarrow> string \<Rightarrow> error + string option" where
  "should_preload cfg r current_agent =
     (case predict_next cfg r current_agent of
        Inl e \<Rightarrow> Inl e
      | Inr (agent, confidence) \<Rightarrow>
          (case agent of
             None \<Rightarrow> Inr None
           | Some a \<Rightarrow> if a = [] then Inr None else Inr (Some a)))"

text \<open>\<^verbatim>\<open>stats\<close>: total traces, the known source agents, the number of distinct pairs.\<close>

definition router_stats :: "PredictiveRouter \<Rightarrow> nat \<times> string list \<times> nat" where
  "router_stats r =
     (total_traces r, map fst (transitions r), sum_list (map (\<lambda>v. length (snd v)) (transitions r)))"

text \<open>
  The operations a caller can apply to a router, and the router after each. Only
  \<^verbatim>\<open>record_transition\<close> and \<^verbatim>\<open>ingest_trace\<close> assign to the router's fields;
  \<^verbatim>\<open>predict_next\<close> reads the table with \<^verbatim>\<open>.get\<close>, which inserts nothing.
\<close>

datatype router_op =
    RecordTransition string string
  | IngestTrace "string list"
  | PredictNext string
  | ShouldPreload string
  | Stats

fun apply_router_op :: "router_op \<Rightarrow> PredictiveRouter \<Rightarrow> PredictiveRouter" where
  "apply_router_op (RecordTransition a b) r = record_transition r a b"
| "apply_router_op (IngestTrace s) r = ingest_trace r s"
| "apply_router_op (PredictNext a) r = r"
| "apply_router_op (ShouldPreload a) r = r"
| "apply_router_op Stats r = r"

definition run_router_ops :: "router_op list \<Rightarrow> PredictiveRouter \<Rightarrow> PredictiveRouter" where
  "run_router_ops ops r = fold apply_router_op ops r"

text \<open>
  The calls of \<^verbatim>\<open>record_transition\<close> that a sequence of operations makes, in order
  (those of \<^verbatim>\<open>ingest_trace\<close> included), as pairs of the two arguments.
\<close>

definition consecutive_pairs :: "string list \<Rightarrow> (string \<times> string) list" where
  "consecutive_pairs s = zip s (tl s)"

fun recorded_calls :: "router_op list \<Rightarrow> (string \<times> string) list" where
  "recorded_calls [] = []"
| "recorded_calls (RecordTransition a b # ops) = (a, b) # recorded_calls ops"
| "recorded_calls (IngestTrace s # ops) = consecutive_pairs s @ recorded_calls ops"
| "recorded_calls (_ # ops) = recorded_calls ops"

text \<open>The successors recorded for an agent, one per call, in call order.\<close>

definition targets :: "(string \<times> string) list \<Rightarrow> string \<Rightarrow> string list" where
  "targets calls a = map snd (filter (\<lambda>p. fst p = a) calls)"

text \<open>The distinct elements of a list in the order of their first occurrence.\<close>

definition order_seen :: "'a list \<Rightarrow> 'a list" where
  "order_seen xs = fold (\<lambda>x acc. if x \<in> set acc then acc else acc @ [x]) xs []"

text \<open>One recorded call applied to a router, and the counter a call history builds.\<close>

definition record_pair :: "string \<times> string \<Rightarrow> PredictiveRouter \<Rightarrow> PredictiveRouter" where
  "record_pair p r = record_transition r (fst p) (snd p)"

definition tally :: "string list \<Rightarrow> counter" where
  "tally ts = map (\<lambda>b. (b, count_list ts b)) (order_seen ts)"

section \<open>Response cache (src/cache.py)\<close>

text \<open>
  The request payload is a dict with the keys \<^verbatim>\<open>input_text\<close> and \<^verbatim>\<open>session_id\<close>,
  either of which may be absent (the code reads both with \<^verbatim>\<open>.get\<close> and a default).
  The context is \<^verbatim>\<open>None\<close> or a dict whose only entry is \<^verbatim>\<open>session_id\<close>; the key
  is built from \<^verbatim>\<open>context or {}\<close>, so \<^verbatim>\<open>None\<close> and the empty dict are one value.
\<close>

record payload =
  input_text :: "string option"
  session_id :: "string option"

type_synonym request_context = "string option"

text \<open>
  A response as \<^verbatim>\<open>_invoke_agent\<close> assembles it. Its \<^verbatim>\<open>timestamp\<close>, and the
  \<^verbatim>\<open>latency_ms\<close> that \<^verbatim>\<open>run_chain\<close> adds, are wall-clock readings in floating point;
  no branch of the code reads them, and they are left out. The field \<open>output_text\<close>
  is the entry \<^verbatim>\<open>"output"\<close> of the dict.
\<close>

record response =
  agent_id :: string
  output_text :: string

text \<open>
  \<^verbatim>\<open>_build_key\<close>: the SHA-256 digest of the JSON text of the three parts with sorted
  keys. The digest is taken as injective, so a key is the triple it is computed from.
\<close>

type_synonym cache_key = "string \<times> payload \<times> request_context"

definition build_key :: "string \<Rightarrow> payload \<Rightarrow> request_context \<Rightarrow> cache_key" where
  "build_key agent p ctx = (agent, p, ctx)"

text \<open>
  The Redis server behind \<^verbatim>\<open>self.client\<close>: the values it holds, each with the expiry
  it was set with, and whether a \<^verbatim>\<open>get\<close> or a \<^verbatim>\<open>setex\<close> sent to it raises.
  \<^verbatim>\<open>json.dumps\<close> followed by \<^verbatim>\<open>json.loads\<close> gives a response back unchanged, so the
  values are kept as responses. Expiry is the server's own act and is no step of this model.
\<close>

record redis_client =
  entries :: "cache_key \<rightharpoonup> int \<times> response"
  get_raises :: bool
  setex_raises :: bool

definition client_get :: "redis_client \<Rightarrow> cache_key \<Rightarrow> error + response option" where
  "client_get cl k =
     (if get_raises cl then Inl RedisError else Inr (map_option snd (entries cl k)))"

definition client_setex :: "redis_client \<Rightarrow> cache_key \<Rightarrow> int \<Rightarrow> response \<Rightarrow> error + redis_client" where
  "client_setex cl k ttl v =
     (if setex_raises cl then Inl RedisError
      else Inr (cl\<lparr>entries := (entries cl)(k \<mapsto> (ttl, v))\<rparr>))"

record AgentResponseCache =
  client :: redis_client
  hits :: nat
  misses :: nat

definition new_cache :: "redis_client \<Rightarrow> AgentResponseCache" where
  "new_cache server = \<lparr>client = server, hits = 0, misses = 0\<rparr>"

text \<open>
  \<^verbatim>\<open>get\<close>: there is no \<^verbatim>\<open>try\<close> around \<^verbatim>\<open>self.client.get(key)\<close>, so an error of the
  client leaves the method before either counter is touched. A stored JSON text is never
  the empty string, so \<^verbatim>\<open>if cached\<close> is the test for presence.
\<close>

definition cache_get ::
  "AgentResponseCache \<Rightarrow> string \<Rightarrow> payload \<Rightarrow> request_context \<Rightarrow> (error + response option) \<times> AgentResponseCache" where
  "cache_get c agent p ctx =
     (case client_get (client c) (build_key agent p ctx) of
        Inl e \<Rightarrow> (Inl e, c)
      | Inr (Some cached) \<Rightarrow> (Inr (Some cached), c\<lparr>hits := hits c + 1\<rparr>)
      | Inr None \<Rightarrow> (Inr None, c\<lparr>misses := misses c + 1\<rparr>))"

text \<open>\<^verbatim>\<open>put\<close>: \<^verbatim>\<open>self.client.setex(key, self.config.cache_ttl, json.dumps(response))\<close>.\<close>

definition cache_put ::
  "OptimizerConfig \<Rightarrow> AgentResponseCache \<Rightarrow> string \<Rightarrow> payload \<Rightarrow> response \<Rightarrow> request_context
     \<Rightarrow> (error + unit) \<times> AgentResponseCache" where
  "cache_put cfg c agent p resp ctx =
     (case client_setex (client c) (build_key agent p ctx) (cache_ttl cfg) resp of
        Inl e \<Rightarrow> (Inl e, c)
      | Inr cl \<Rightarrow> (Inr (), c\<lparr>client := cl\<rparr>))"

text \<open>\<^verbatim>\<open>hit_rate\<close>: \<^verbatim>\<open>self._hits / total if total > 0 else 0.0\<close>.\<close>

definition hit_rate :: "AgentResponseCache \<Rightarrow> rat" where
  "hit_rate c =
     (let total = hits c + misses c in if 0 < total then of_nat (hits c) / of_nat total else 0)"

text \<open>
  \<^verbatim>\<open>stats\<close>: the two counters and \<^verbatim>\<open>round(self.hit_rate, 3)\<close>. Python's built-in
  \<^verbatim>\<open>round\<close> works on the double that holds the rate, and where the rate lies halfway
  between two thousandths the double decides which of them it returns (\<^verbatim>\<open>round(1/16, 3)\<close>
  is 0.062 and \<^verbatim>\<open>round(1/80, 3)\<close> is 0.013). It is a parameter of the model.
\<close>

definition cache_stats :: "(rat \<Rightarrow> rat) \<Rightarrow> AgentResponseCache \<Rightarrow> nat \<times> nat \<times> rat" where
  "cache_stats round3 c = (hits c, misses c, round3 (hit_rate c))"

text \<open>
  A caller that makes one \<^verbatim>\<open>get\<close> call after the other; an error raised by a call
  ends the sequence.
\<close>

fun cache_gets ::
  "AgentResponseCache \<Rightarrow> (string \<times> payload \<times> request_context) list \<Rightarrow> error + AgentResponseCache" where
  "cache_gets c [] = Inr c"
| "cache_gets c ((agent, p, ctx) # rest) =
     (case cache_get c agent p ctx of
        (Inl e, c') \<Rightarrow> Inl e
      | (Inr found, c') \<Rightarrow> cache_gets c' rest)"

section \<open>Chain orchestrator (src/agent_wrapper.py)\<close>

text \<open>
  The remote capability \<^verbatim>\<open>self._bedrock.invoke_agent(agentId, agentAliasId, sessionId,
  inputText)\<close> is a parameter of the model: a function of the agent, the session and the
  input text (the alias is the constant \<^verbatim>\<open>"TSTALIASID"\<close>) that raises or returns the
  events of the streamed completion. An event carries the decoded bytes of its chunk, or
  nothing when it has no chunk or the chunk no bytes. In this section the remote answers
  a call by its arguments alone; the remote that keeps session state between calls, which
  a preload probe changes, is modelled in the section after this one.
\<close>

type_synonym event = "string option"

type_synonym bedrock = "string \<Rightarrow> string \<Rightarrow> string \<Rightarrow> error + event list"

text \<open>
  What a \<^verbatim>\<open>Future\<close> of the preload worker has come to when \<^verbatim>\<open>run_chain\<close> joins it
  with \<^verbatim>\<open>result(timeout=1)\<close>: the probe returned, the probe raised (caught and logged
  inside \<^verbatim>\<open>_preload_context\<close>), or the worker is still running and the join times out.
\<close>

datatype future = ProbeDone | ProbeFailed | ProbeRunning

text \<open>The preload path: what submitting a preload for an agent and a context leads to.\<close>

type_synonym preload_path = "string \<Rightarrow> request_context \<Rightarrow> future"

text \<open>
  The optimizer object. The last two fields are bookkeeping of the model: the calls of
  the remote capability made by \<^verbatim>\<open>_invoke_agent\<close> (agent, session, input text) and the
  preloads submitted to the executor (agent, session), each in order.
\<close>

record BedrockAgentOptimizer =
  config :: OptimizerConfig
  cache :: AgentResponseCache
  router :: PredictiveRouter
  preloaded :: "(string \<times> future) list"
  invocations :: "(string \<times> string \<times> string) list"
  preloads :: "(string \<times> string) list"

text \<open>
  \<^verbatim>\<open>__init__\<close>: \<^verbatim>\<open>config or OptimizerConfig()\<close>, a cache on the Redis server the
  configuration names, an empty router, no preloads. Nothing is checked.
\<close>

definition new_optimizer :: "OptimizerConfig option \<Rightarrow> redis_client \<Rightarrow> BedrockAgentOptimizer" where
  "new_optimizer cfg server =
     \<lparr>config = (case cfg of None \<Rightarrow> default_config | Some c \<Rightarrow> c),
      cache = new_cache server, router = new_router, preloaded = [],
      invocations = [], preloads = []\<rparr>"

text \<open>The completion text: the bytes of every event's chunk, concatenated.\<close>

definition collect_completion :: "event list \<Rightarrow> string" where
  "collect_completion events = concat (map (\<lambda>ev. case ev of None \<Rightarrow> [] | Some b \<Rightarrow> b) events)"

text \<open>
  \<^verbatim>\<open>_invoke_agent\<close>. A cached response is a dict with entries, so \<^verbatim>\<open>if cached\<close> is
  the test for a hit. Neither the cache calls nor the remote call stand in a \<^verbatim>\<open>try\<close>.
\<close>

definition invoke_agent ::
  "bedrock \<Rightarrow> string \<Rightarrow> payload \<Rightarrow> request_context \<Rightarrow> BedrockAgentOptimizer
     \<Rightarrow> (error + response) \<times> BedrockAgentOptimizer" where
  "invoke_agent br agent p ctx s =
     (case cache_get (cache s) agent p ctx of
        (Inl e, c1) \<Rightarrow> (Inl e, s\<lparr>cache := c1\<rparr>)
      | (Inr (Some cached), c1) \<Rightarrow> (Inr cached, s\<lparr>cache := c1\<rparr>)
      | (Inr None, c1) \<Rightarrow>
          let sid = (case session_id p of None \<Rightarrow> ''default'' | Some x \<Rightarrow> x);
              txt = (case input_text p of None \<Rightarrow> [] | Some x \<Rightarrow> x);
              s1 = s\<lparr>cache := c1, invocations := invocations s @ [(agent, sid, txt)]\<rparr>
          in (case br agent sid txt of
                Inl e \<Rightarrow> (Inl e, s1)
              | Inr events \<Rightarrow>
                  let result = \<lparr>agent_id = agent, output_text = collect_completion events\<rparr>
                  in (case cache_put (config s1) (cache s1) agent p result ctx of
                        (Inl e, c2) \<Rightarrow> (Inl e, s1\<lparr>cache := c2\<rparr>)
                      | (Inr u, c2) \<Rightarrow> (Inr result, s1\<lparr>cache := c2\<rparr>))))"

text \<open>
  \<^verbatim>\<open>_preload_context\<close>, run to its end, against a remote without session state: the
  probe call stands in a \<^verbatim>\<open>try\<close> whose handler logs a warning, and all that is left
  of it is how it ended.
\<close>

definition preload_context :: "bedrock \<Rightarrow> preload_path" where
  "preload_context br agent ctx =
     (case br agent (case ctx of None \<Rightarrow> ''preload'' | Some x \<Rightarrow> x)
             ''[PRELOAD] Initialize session context.'' of
        Inl e \<Rightarrow> ProbeFailed
      | Inr events \<Rightarrow> ProbeDone)"

text \<open>
  The session identifier \<^verbatim>\<open>f"chain-{int(time.time())}"\<close>, from the clock reading in
  whole seconds.
\<close>

definition digit :: "nat \<Rightarrow> char" where
  "digit d = ''0123456789'' ! d"

function str_nat :: "nat \<Rightarrow> string" where
  "str_nat n = (if n < 10 then [digit n] else str_nat (n div 10) @ [digit (n mod 10)])"
  by pat_completeness auto
termination
  by (relation "measure id") auto

declare str_nat.simps [simp del]

definition str_int :: "int \<Rightarrow> string" where
  "str_int i = (if i < 0 then CHR ''-'' # str_nat (nat (- i)) else str_nat (nat i))"

definition chain_session :: "int \<Rightarrow> string" where
  "chain_session now = ''chain-'' @ str_int now"

text \<open>
  The block of the loop body that meets a preload of the current agent: the join is
  bounded, whatever it raises is swallowed, and the handle is deleted.
\<close>

definition join_preload :: "string \<Rightarrow> BedrockAgentOptimizer \<Rightarrow> BedrockAgentOptimizer" where
  "join_preload agent s =
     (case map_of (preloaded s) agent of
        None \<Rightarrow> s
      | Some fut \<Rightarrow> s\<lparr>preloaded := AList.delete agent (preloaded s)\<rparr>)"

text \<open>
  The block of the loop body after a step: when an agent follows (\<^verbatim>\<open>i < len(agent_ids)
  - 1\<close>, the next one being \<^verbatim>\<open>agent_ids[i + 1]\<close>), record the transition, ask the router,
  and submit a preload for the agent it predicts.
\<close>

definition speculate ::
  "preload_path \<Rightarrow> string \<Rightarrow> string \<Rightarrow> string list \<Rightarrow> BedrockAgentOptimizer
     \<Rightarrow> (error + unit) \<times> BedrockAgentOptimizer" where
  "speculate pre sid agent rest s =
     (case rest of
        [] \<Rightarrow> (Inr (), s)
      | nxt # _ \<Rightarrow>
          let s1 = s\<lparr>router := record_transition (router s) agent nxt\<rparr> in
          (case should_preload (config s1) (router s1) agent of
             Inl e \<Rightarrow> (Inl e, s1)
           | Inr None \<Rightarrow> (Inr (), s1)
           | Inr (Some predicted) \<Rightarrow>
               (Inr (),
                s1\<lparr>preloaded := AList.update predicted (pre predicted (Some sid)) (preloaded s1),
                    preloads := preloads s1 @ [(predicted, sid)]\<rparr>)))"

text \<open>
  The loop of \<^verbatim>\<open>run_chain\<close> over the agents still to run, with the current input and
  the results so far. An error leaves the loop at once, with the state as it is then.
\<close>

fun chain_loop ::
  "bedrock \<Rightarrow> preload_path \<Rightarrow> string \<Rightarrow> string list \<Rightarrow> string \<Rightarrow> response list
     \<Rightarrow> BedrockAgentOptimizer \<Rightarrow> (error + response list) \<times> BedrockAgentOptimizer" where
  "chain_loop br pre sid [] current_input results s = (Inr results, s)"
| "chain_loop br pre sid (agent # rest) current_input results s =
     (let p = \<lparr>input_text = Some current_input, session_id = Some sid\<rparr> in
      case invoke_agent br agent p (Some sid) (join_preload agent s) of
        (Inl e, s2) \<Rightarrow> (Inl e, s2)
      | (Inr result, s2) \<Rightarrow>
          (case speculate pre sid agent rest s2 of
             (Inl e, s3) \<Rightarrow> (Inl e, s3)
           | (Inr u, s3) \<Rightarrow>
               chain_loop br pre sid rest (output_text result) (results @ [result]) s3))"

text \<open>\<^verbatim>\<open>run_chain\<close>, entered when the clock reads \<open>now\<close> seconds.\<close>

definition run_chain ::
  "bedrock \<Rightarrow> preload_path \<Rightarrow> int \<Rightarrow> string list \<Rightarrow> string \<Rightarrow> BedrockAgentOptimizer
     \<Rightarrow> (error + response list) \<times> BedrockAgentOptimizer" where
  "run_chain br pre now ids input s = chain_loop br pre (chain_session now) ids input [] s"

text \<open>
  The chain with the preload path disabled: the same loop without the join and without
  the submission; the transition is still recorded.
\<close>

fun chain_loop_no_preload ::
  "bedrock \<Rightarrow> string \<Rightarrow> string list \<Rightarrow> string \<Rightarrow> response list
     \<Rightarrow> BedrockAgentOptimizer \<Rightarrow> (error + response list) \<times> BedrockAgentOptimizer" where
  "chain_loop_no_preload br sid [] current_input results s = (Inr results, s)"
| "chain_loop_no_preload br sid (agent # rest) current_input results s =
     (let p = \<lparr>input_text = Some current_input, session_id = Some sid\<rparr> in
      case invoke_agent br agent p (Some sid) s of
        (Inl e, s2) \<Rightarrow> (Inl e, s2)
      | (Inr result, s2) \<Rightarrow>
          chain_loop_no_preload br sid rest (output_text result) (results @ [result])
            (case rest of
               [] \<Rightarrow> s2
             | nxt # _ \<Rightarrow> s2\<lparr>router := record_transition (router s2) agent nxt\<rparr>))"

definition run_chain_no_preload ::
  "bedrock \<Rightarrow> int \<Rightarrow> string list \<Rightarrow> string \<Rightarrow> BedrockAgentOptimizer
     \<Rightarrow> (error + response list) \<times> BedrockAgentOptimizer" where
  "run_chain_no_preload br now ids input s =
     chain_loop_no_preload br (chain_session now) ids input [] s"

section \<open>The orchestrator against a remote that keeps session state\<close>

text \<open>
  The remote capability together with what the remote keeps between calls (its sessions):
  a call is made in a state of the remote, raises or returns the events of the completion,
  and leaves the remote in a new state. The type \<open>bedrock\<close> above is the case of a
  remote whose answers do not depend on earlier calls.
\<close>

type_synonym 'r remote = "'r \<Rightarrow> string \<Rightarrow> string \<Rightarrow> string \<Rightarrow> (error + event list) \<times> 'r"

text \<open>
  The preload path: what the probe of a worker does to the remote, and what its
  \<^verbatim>\<open>Future\<close> has come to when it is joined.
\<close>

type_synonym 'r probe_path = "'r \<Rightarrow> string \<Rightarrow> request_context \<Rightarrow> future \<times> 'r"

text \<open>
  What the executor's worker does with a submitted preload: it runs the probe at once, so
  that the probe has reached the remote before the next step calls it (the case the bounded
  join waits for), or it does not get to the remote while the chain runs.
\<close>

datatype worker = Prompt | Stalled

text \<open>The schedule of the executor, by the number of preloads submitted before.\<close>

type_synonym executor = "nat \<Rightarrow> worker"

text \<open>\<^verbatim>\<open>_invoke_agent\<close>, with the state of the remote passed through the remote call.\<close>

definition invoke_agent_stateful ::
  "'r remote \<Rightarrow> string \<Rightarrow> payload \<Rightarrow> request_context \<Rightarrow> BedrockAgentOptimizer \<Rightarrow> 'r
     \<Rightarrow> (error + response) \<times> BedrockAgentOptimizer \<times> 'r" where
  "invoke_agent_stateful br agent p ctx s m =
     (case cache_get (cache s) agent p ctx of
        (Inl e, c1) \<Rightarrow> (Inl e, s\<lparr>cache := c1\<rparr>, m)
      | (Inr (Some cached), c1) \<Rightarrow> (Inr cached, s\<lparr>cache := c1\<rparr>, m)
      | (Inr None, c1) \<Rightarrow>
          let sid = (case session_id p of None \<Rightarrow> ''default'' | Some x \<Rightarrow> x);
              txt = (case input_text p of None \<Rightarrow> [] | Some x \<Rightarrow> x);
              s1 = s\<lparr>cache := c1, invocations := invocations s @ [(agent, sid, txt)]\<rparr>
          in (case br m agent sid txt of
                (Inl e, m') \<Rightarrow> (Inl e, s1, m')
              | (Inr events, m') \<Rightarrow>
                  let result = \<lparr>agent_id = agent, output_text = collect_completion events\<rparr>
                  in (case cache_put (config s1) (cache s1) agent p result ctx of
                        (Inl e, c2) \<Rightarrow> (Inl e, s1\<lparr>cache := c2\<rparr>, m')
                      | (Inr u, c2) \<Rightarrow> (Inr result, s1\<lparr>cache := c2\<rparr>, m'))))"

text \<open>
  \<^verbatim>\<open>_preload_context\<close>: the probe is a call of the same remote capability, to the
  predicted agent, under the session identifier of the context, which is the chain's own.
  Whatever it raises is caught; the state it leaves the remote in stays.
\<close>

definition preload_context_stateful :: "'r remote \<Rightarrow> 'r probe_path" where
  "preload_context_stateful br m agent ctx =
     (case br m agent (case ctx of None \<Rightarrow> ''preload'' | Some x \<Rightarrow> x)
             ''[PRELOAD] Initialize session context.'' of
        (Inl e, m') \<Rightarrow> (ProbeFailed, m')
      | (Inr events, m') \<Rightarrow> (ProbeDone, m'))"

text \<open>The block after a step, with the submitted preload run as the schedule says.\<close>

definition speculate_stateful ::
  "'r probe_path \<Rightarrow> executor \<Rightarrow> string \<Rightarrow> string \<Rightarrow> string list \<Rightarrow> BedrockAgentOptimizer \<Rightarrow> 'r
     \<Rightarrow> (error + unit) \<times> BedrockAgentOptimizer \<times> 'r" where
  "speculate_stateful pp ex sid agent rest s m =
     (case rest of
        [] \<Rightarrow> (Inr (), s, m)
      | nxt # _ \<Rightarrow>
          let s1 = s\<lparr>router := record_transition (router s) agent nxt\<rparr> in
          (case should_preload (config s1) (router s1) agent of
             Inl e \<Rightarrow> (Inl e, s1, m)
           | Inr None \<Rightarrow> (Inr (), s1, m)
           | Inr (Some predicted) \<Rightarrow>
               (case ex (length (preloads s1)) of
                  Prompt \<Rightarrow>
                    (case pp m predicted (Some sid) of
                       (fut, m') \<Rightarrow>
                         (Inr (),
                          s1\<lparr>preloaded := AList.update predicted fut (preloaded s1),
                              preloads := preloads s1 @ [(predicted, sid)]\<rparr>, m'))
                | Stalled \<Rightarrow>
                    (Inr (),
                     s1\<lparr>preloaded := AList.update predicted ProbeRunning (preloaded s1),
                         preloads := preloads s1 @ [(predicted, sid)]\<rparr>, m))))"

text \<open>The loop of \<^verbatim>\<open>run_chain\<close> and \<^verbatim>\<open>run_chain\<close> itself, with the state of the remote.\<close>

fun chain_loop_stateful ::
  "'r remote \<Rightarrow> 'r probe_path \<Rightarrow> executor \<Rightarrow> string \<Rightarrow> string list \<Rightarrow> string \<Rightarrow> response list
     \<Rightarrow> BedrockAgentOptimizer \<Rightarrow> 'r \<Rightarrow> (error + response list) \<times> BedrockAgentOptimizer \<times> 'r" where
  "chain_loop_stateful br pp ex sid [] current_input results s m = (Inr results, s, m)"
| "chain_loop_stateful br pp ex sid (agent # rest) current_input results s m =
     (let p = \<lparr>input_text = Some current_input, session_id = Some sid\<rparr> in
      case invoke_agent_stateful br agent p (Some sid) (join_preload agent s) m of
        (Inl e, s2, m2) \<Rightarrow> (Inl e, s2, m2)
      | (Inr result, s2, m2) \<Rightarrow>
          (case speculate_stateful pp ex sid agent rest s2 m2 of
             (Inl e, s3, m3) \<Rightarrow> (Inl e, s3, m3)
           | (Inr u, s3, m3) \<Rightarrow>
               chain_loop_stateful br pp ex sid rest (output_text result) (results @ [result])
                 s3 m3))"

definition run_chain_stateful ::
  "'r remote \<Rightarrow> 'r probe_path \<Rightarrow> executor \<Rightarrow> int \<Rightarrow> string list \<Rightarrow> string
     \<Rightarrow> BedrockAgentOptimizer \<Rightarrow> 'r \<Rightarrow> (error + response list) \<times> BedrockAgentOptimizer \<times> 'r" where
  "run_chain_stateful br pp ex now ids input s m =
     chain_loop_stateful br pp ex (chain_session now) ids input [] s m"

text \<open>The same with the preload path disabled: no join, no submission.\<close>

fun chain_loop_stateful_no_preload ::
  "'r remote \<Rightarrow> string \<Rightarrow> string list \<Rightarrow> string \<Rightarrow> response list
     \<Rightarrow> BedrockAgentOptimizer \<Rightarrow> 'r \<Rightarrow> (error + response list) \<times> BedrockAgentOptimizer \<times> 'r" where
  "chain_loop_stateful_no_preload br sid [] current_input results s m = (Inr results, s, m)"
| "chain_loop_stateful_no_preload br sid (agent # rest) current_input results s m =
     (let p = \<lparr>input_text = Some current_input, session_id = Some sid\<rparr> in
      case invoke_agent_stateful br agent p (Some sid) s m of
        (Inl e, s2, m2) \<Rightarrow> (Inl e, s2, m2)
      | (Inr result, s2, m2) \<Rightarrow>
          chain_loop_stateful_no_preload br sid rest (output_text result) (results @ [result])
            (case rest of
               [] \<Rightarrow> s2
             | nxt # _ \<Rightarrow> s2\<lparr>router := record_transition (router s2) agent nxt\<rparr>) m2)"

definition run_chain_stateful_no_preload ::
  "'r remote \<Rightarrow> int \<Rightarrow> string list \<Rightarrow> string \<Rightarrow> BedrockAgentOptimizer \<Rightarrow> 'r
     \<Rightarrow> (error + response list) \<times> BedrockAgentOptimizer \<times> 'r" where
  "run_chain_stateful_no_preload br now ids input s m =
     chain_loop_stateful_no_preload br (chain_session now) ids input [] s m"

section \<open>Sample environments and predicates of the specification\<close>

text \<open>A Redis server that holds nothing and answers every call.\<close>

definition empty_server :: redis_client where
  "empty_server = \<lparr>entries = Map.empty, get_raises = False, setex_raises = False\<rparr>"

text \<open>A remote capability that answers every call with one event carrying the input text.\<close>

definition echo_bedrock :: bedrock where
  "echo_bedrock agent sid txt = Inr [Some txt]"


text \<open>A Redis server that holds the response to one request.\<close>

definition one_entry_server :: redis_client where
  "one_entry_server =
     \<lparr>entries = [build_key ''a'' \<lparr>input_text = Some ''q'', session_id = None\<rparr> None \<mapsto>
                   (300, \<lparr>agent_id = ''a'', output_text = ''r''\<rparr>)],
      get_raises = False, setex_raises = False\<rparr>"

text \<open>Three lookups, the first of which the server above answers.\<close>

definition three_requests :: "(string \<times> payload \<times> request_context) list" where
  "three_requests =
     [(''a'', \<lparr>input_text = Some ''q'', session_id = None\<rparr>, None),
      (''b'', \<lparr>input_text = Some ''q'', session_id = None\<rparr>, None),
      (''c'', \<lparr>input_text = Some ''q'', session_id = None\<rparr>, None)]"

text \<open>
  A remote that remembers which agent was called under which session: it marks its answer
  as warm when the agent has been called under the session before, and as cold when not.
\<close>

definition session_remote :: "(string \<times> string) list remote" where
  "session_remote m agent sid txt =
     (Inr [Some ((if (agent, sid) \<in> set m then ''warm '' else ''cold '') @ txt)], (agent, sid) # m)"

text \<open>
  What is taken of \<^verbatim>\<open>round(x, 3)\<close>: it returns a multiple of one thousandth, and no
  multiple of one thousandth is nearer to \<open>x\<close>. Which of two equally near ones it
  returns is left open.
\<close>

definition rounds_to_thousandths :: "(rat \<Rightarrow> rat) \<Rightarrow> bool" where
  "rounds_to_thousandths round3 \<longleftrightarrow>
     (\<forall>q. (\<exists>k::int. round3 q = of_int k / 1000) \<and> \<bar>round3 q - q\<bar> \<le> 1 / 2000)"

text \<open>
  One such rounding, for the examples: to the nearest thousandth of the exact value, with
  the even one of two equally near.
\<close>

definition round_half_even :: "rat \<Rightarrow> int" where
  "round_half_even q =
     (let f = \<lfloor>q\<rfloor>; d = q - of_int f
      in if d < 1 / 2 then f else if 1 / 2 < d then f + 1 else if even f then f else f + 1)"

definition nearest_thousandth :: "rat \<Rightarrow> rat" where
  "nearest_thousandth q = of_int (round_half_even (q * 1000)) / 1000"

text \<open>The part of the optimizer that the results of a chain depend on: everything but the
  preload map and the log of submitted preloads.\<close>

definition core ::
  "BedrockAgentOptimizer \<Rightarrow>
     OptimizerConfig \<times> AgentResponseCache \<times> PredictiveRouter \<times> (string \<times> string \<times> string) list" where
  "core s = (config s, cache s, router s, invocations s)"

text \<open>The entries the Redis server behind an optimizer holds.\<close>

definition stored :: "BedrockAgentOptimizer \<Rightarrow> cache_key \<rightharpoonup> int \<times> response" where
  "stored s = entries (client (cache s))"

section \<open>Properties of the router\<close>

lemma outgoing_record_transition:
  "outgoing (record_transition r f t) a =
     (if a = f then AList.update t (counter_get (outgoing r f) t + 1) (outgoing r f)
      else outgoing r a)"
  by (simp add: outgoing_def record_transition_def Let_def update_conv')

lemma consecutive_pairs_nth:
  "consecutive_pairs s = map (\<lambda>i. (s ! i, s ! (i + 1))) [0 ..< length s - 1]"
  by (rule nth_equalityI) (auto simp: consecutive_pairs_def nth_tl)


lemma record_pair_apply: "record_pair (a, b) = (\<lambda>r. record_transition r a b)"
  by (simp add: record_pair_def fun_eq_iff)

lemma ingest_trace_pairs:
  "ingest_trace r s = fold record_pair (consecutive_pairs s) r"
  by (simp add: ingest_trace_def consecutive_pairs_nth fold_map comp_def record_pair_apply)

lemma run_router_ops_calls:
  "run_router_ops ops r = fold record_pair (recorded_calls ops) r"
  unfolding run_router_ops_def
proof (induction ops arbitrary: r)
  case Nil
  show ?case by simp
next
  case (Cons op ops)
  show ?case by (cases op) (simp_all add: Cons.IH ingest_trace_pairs record_pair_apply)
qed

lemma order_seen_snoc:
  "order_seen (xs @ [x]) = (if x \<in> set (order_seen xs) then order_seen xs else order_seen xs @ [x])"
  by (simp add: order_seen_def)

lemma set_order_seen: "set (order_seen xs) = set xs"
  by (induction xs rule: rev_induct) (auto simp: order_seen_snoc, simp add: order_seen_def)

lemma distinct_order_seen: "distinct (order_seen xs)"
  by (induction xs rule: rev_induct) (auto simp: order_seen_snoc, simp add: order_seen_def)


lemma map_of_tab: "map_of (map (\<lambda>b. (b, g b)) xs) k = (if k \<in> set xs then Some (g k) else None)"
  by (induction xs) auto

lemma update_tab_new:
  "k \<notin> set xs \<Longrightarrow> AList.update k v (map (\<lambda>b. (b, g b)) xs) = map (\<lambda>b. (b, (g(k := v)) b)) (xs @ [k])"
  by (induction xs) auto

lemma update_tab_old:
  "k \<in> set xs \<Longrightarrow> distinct xs \<Longrightarrow> AList.update k v (map (\<lambda>b. (b, g b)) xs) = map (\<lambda>b. (b, (g(k := v)) b)) xs"
  by (induction xs) (auto simp: update_tab_new)

lemma count_list_snoc: "count_list (ts @ [t]) = (count_list ts)(t := count_list ts t + 1)"
  by (auto simp: fun_eq_iff)

lemma tally_snoc:
  "AList.update t (Suc (counter_get (tally ts) t)) (tally ts) = tally (ts @ [t])"
proof (cases "t \<in> set ts")
  case True
  then have "counter_get (tally ts) t = count_list ts t"
    by (simp add: counter_get_def tally_def map_of_tab set_order_seen)
  with True show ?thesis
    by (simp add: tally_def update_tab_old set_order_seen distinct_order_seen order_seen_snoc count_list_snoc)
next
  case False
  then have "counter_get (tally ts) t = 0"
    by (simp add: counter_get_def tally_def map_of_tab set_order_seen)
  with False show ?thesis
    using update_tab_new [of t "order_seen ts" "count_list ts t + 1" "count_list ts"]
    by (simp add: tally_def set_order_seen order_seen_snoc count_list_snoc)
qed

lemma outgoing_history:
  "outgoing (fold record_pair calls new_router) a = tally (targets calls a)"
proof (induction calls rule: rev_induct)
  case Nil
  show ?case by (simp add: outgoing_def new_router_def tally_def targets_def order_seen_def)
next
  case (snoc p calls)
  show ?case
    by (cases p) (auto simp: record_pair_apply outgoing_record_transition snoc.IH targets_def tally_snoc)
qed

lemma sum_tally: "sum_list (map snd (tally ts)) = length ts"
proof -
  have "sum_list (map snd (tally ts)) = sum_list (map (count_list ts) (order_seen ts))"
    by (simp add: tally_def comp_def)
  also have "\<dots> = sum (count_list ts) (set ts)"
    by (simp add: sum_list_distinct_conv_sum_set distinct_order_seen set_order_seen)
  also have "\<dots> = length ts"
    by (rule sum_count_set) simp_all
  finally show ?thesis .
qed


lemma outgoing_reachable:
  "outgoing (run_router_ops ops new_router) a = tally (targets (recorded_calls ops) a)"
  by (simp add: run_router_ops_calls outgoing_history)

lemma tally_positive: "(b, n) \<in> set (tally ts) \<Longrightarrow> 0 < n"
proof -
  assume "(b, n) \<in> set (tally ts)"
  then have "b \<in> set ts" "n = count_list ts b"
    by (auto simp: tally_def set_order_seen)
  then show ?thesis using count_list_0_iff [of ts b] by auto
qed

lemma tally_empty: "tally ts = [] \<longleftrightarrow> ts = []"
  using set_order_seen [of ts] by (auto simp: tally_def order_seen_def)

lemma map_fst_tally: "map fst (tally ts) = order_seen ts"
  by (simp add: tally_def comp_def)

lemma max_by_count_scan:
  "max_by_count best xs = r \<Longrightarrow>
     (r = best \<and> (\<forall>y \<in> set xs. snd y \<le> snd best)) \<or>
     (\<exists>pre post. xs = pre @ r # post \<and> (\<forall>y \<in> set pre. snd y < snd r) \<and>
        snd best < snd r \<and> (\<forall>y \<in> set post. snd y \<le> snd r))"
proof (induction xs arbitrary: best)
  case Nil
  then show ?case by simp
next
  case (Cons x xs)
  let ?b = "if snd best < snd x then x else best"
  from Cons.prems have run: "max_by_count ?b xs = r" by simp
  from Cons.IH [OF run] show ?case
  proof
    assume a: "r = ?b \<and> (\<forall>y \<in> set xs. snd y \<le> snd ?b)"
    show ?thesis
    proof (cases "snd best < snd x")
      case True
      with a have "x # xs = [] @ r # xs \<and> (\<forall>y \<in> set []. snd y < snd r) \<and>
          snd best < snd r \<and> (\<forall>y \<in> set xs. snd y \<le> snd r)"
        by auto
      then show ?thesis by (intro disjI2 exI)
    next
      case False
      with a show ?thesis by auto
    qed
  next
    assume "\<exists>pre post. xs = pre @ r # post \<and> (\<forall>y \<in> set pre. snd y < snd r) \<and>
        snd ?b < snd r \<and> (\<forall>y \<in> set post. snd y \<le> snd r)"
    then obtain pre post where p: "xs = pre @ r # post" "\<forall>y \<in> set pre. snd y < snd r"
        "snd ?b < snd r" "\<forall>y \<in> set post. snd y \<le> snd r"
      by blast
    from p(3) have "snd x < snd r" "snd best < snd r"
      by (auto split: if_splits)
    with p have "x # xs = (x # pre) @ r # post \<and> (\<forall>y \<in> set (x # pre). snd y < snd r) \<and>
        snd best < snd r \<and> (\<forall>y \<in> set post. snd y \<le> snd r)"
      by auto
    then show ?thesis by (intro disjI2 exI)
  qed
qed

lemma most_common1_first_max:
  assumes "c \<noteq> []"
  shows "\<exists>b m pre post. most_common1 c = [(b, m)] \<and> c = pre @ (b, m) # post \<and>
           (\<forall>y \<in> set pre. snd y < m) \<and> (\<forall>y \<in> set post. snd y \<le> m)"
proof -
  from assms obtain x xs where c: "c = x # xs" by (cases c) auto
  obtain b m where r: "max_by_count x xs = (b, m)" by (cases "max_by_count x xs")
  from max_by_count_scan [OF r] show ?thesis
  proof
    assume "(b, m) = x \<and> (\<forall>y \<in> set xs. snd y \<le> snd x)"
    then have "most_common1 c = [(b, m)] \<and> c = [] @ (b, m) # xs \<and>
        (\<forall>y \<in> set []. snd y < m) \<and> (\<forall>y \<in> set xs. snd y \<le> m)"
      using c r by (auto simp: most_common1_def)
    then show ?thesis by (intro exI)
  next
    assume "\<exists>pre post. xs = pre @ (b, m) # post \<and> (\<forall>y \<in> set pre. snd y < snd (b, m)) \<and>
        snd x < snd (b, m) \<and> (\<forall>y \<in> set post. snd y \<le> snd (b, m))"
    then obtain pre post where p: "xs = pre @ (b, m) # post" "\<forall>y \<in> set pre. snd y < m"
        "snd x < m" "\<forall>y \<in> set post. snd y \<le> m"
      by auto
    then have "most_common1 c = [(b, m)] \<and> c = (x # pre) @ (b, m) # post \<and>
        (\<forall>y \<in> set (x # pre). snd y < m) \<and> (\<forall>y \<in> set post. snd y \<le> m)"
      using c r by (auto simp: most_common1_def)
    then show ?thesis by (intro exI)
  qed
qed

lemma first_max_is_Max:
  assumes "c = pre @ (b, m) # post" "\<forall>y \<in> set pre. snd y < m" "\<forall>y \<in> set post. snd y \<le> m"
  shows "Max (snd ` set c) = (m::nat)"
proof (rule Max_eqI)
  show "finite (snd ` set c)" by simp
  show "m \<in> snd ` set c" using assms(1) by force
  fix y assume "y \<in> snd ` set c"
  then show "y \<le> m" using assms by (auto simp: less_imp_le)
qed

lemma predict_next_unfold:
  assumes "outgoing r a = pre @ (b, m) # post"
    and "\<forall>y \<in> set pre. snd y < m" and "\<forall>y \<in> set post. snd y \<le> m"
    and "most_common1 (outgoing r a) = [(b, m)]"
    and "sum_list (map snd (outgoing r a)) \<noteq> 0"
  shows "predict_next cfg r a =
     Inr (if prediction_threshold cfg \<le> of_nat m / of_nat (sum_list (map snd (outgoing r a)))
          then Some b else None,
          of_nat m / of_nat (sum_list (map snd (outgoing r a))))"
proof -
  from assms(1) obtain c where c: "map_of (transitions r) a = Some c" "c = outgoing r a"
    by (auto simp: outgoing_def split: option.splits)
  have "c \<noteq> []" using assms(1) c(2) by auto
  moreover have "sum_list (map snd c) \<noteq> 0" using assms(5) unfolding c(2) .
  ultimately show ?thesis
    using c assms(4) by (simp add: predict_next_def Let_def del: sum_list_eq_0_iff)
qed

lemma predict_next_none:
  "outgoing r a = [] \<Longrightarrow> predict_next cfg r a = Inr (None, 0)"
  by (auto simp: outgoing_def predict_next_def split: option.splits)

lemma reachable_first_max:
  assumes "outgoing (run_router_ops ops new_router) a \<noteq> []"
  shows "\<exists>pre b m post.
     outgoing (run_router_ops ops new_router) a = pre @ (b, m) # post \<and>
     (\<forall>y \<in> set pre. snd y < m) \<and> (\<forall>y \<in> set post. snd y \<le> m) \<and>
     predict_next cfg (run_router_ops ops new_router) a =
       Inr (if prediction_threshold cfg \<le>
               of_nat m / of_nat (sum_list (map snd (outgoing (run_router_ops ops new_router) a)))
            then Some b else None,
            of_nat m / of_nat (sum_list (map snd (outgoing (run_router_ops ops new_router) a))))"
proof -
  let ?r = "run_router_ops ops new_router"
  let ?ts = "targets (recorded_calls ops) a"
  have o: "outgoing ?r a = tally ?ts" by (rule outgoing_reachable)
  with assms have "?ts \<noteq> []" by (simp add: tally_empty)
  then have tot: "sum_list (map snd (outgoing ?r a)) \<noteq> 0" unfolding o sum_tally by simp
  from most_common1_first_max [OF assms] obtain b m pre post where
    f: "most_common1 (outgoing ?r a) = [(b, m)]" "outgoing ?r a = pre @ (b, m) # post"
       "\<forall>y \<in> set pre. snd y < m" "\<forall>y \<in> set post. snd y \<le> m"
    by blast
  from predict_next_unfold [OF f(2) f(3) f(4) f(1) tot, of cfg] f(2,3,4)
  show ?thesis by blast
qed

text \<open>
  Claim C4. In every router state reached from a fresh router, for every agent \<open>a\<close>:
  when no transition from \<open>a\<close> is recorded, \<^verbatim>\<open>predict_next\<close> returns no candidate
  and confidence 0; otherwise, with the total of the counts from \<open>a\<close> and the greatest
  count, it returns the quotient of the two as confidence, together with a successor that
  has the greatest count when the quotient reaches the threshold and with no candidate
  when it does not.
\<close>

theorem predict_next_confidence:
  "let r = run_router_ops ops new_router; counts = outgoing r a;
       total = sum_list (map snd counts); best_count = Max (snd ` set counts);
       confidence = (of_nat best_count / of_nat total :: rat)
   in (counts = [] \<longrightarrow> predict_next cfg r a = Inr (None, 0)) \<and>
      (counts \<noteq> [] \<longrightarrow>
         (\<exists>best. (best, best_count) \<in> set counts \<and>
            predict_next cfg r a =
              Inr (if prediction_threshold cfg \<le> confidence then Some best else None,
                   confidence)))"
proof -
  let ?r = "run_router_ops ops new_router"
  have "\<exists>best. (best, Max (snd ` set (outgoing ?r a))) \<in> set (outgoing ?r a) \<and>
      predict_next cfg ?r a =
        Inr (if prediction_threshold cfg \<le>
                of_nat (Max (snd ` set (outgoing ?r a))) / of_nat (sum_list (map snd (outgoing ?r a)))
             then Some best else None,
             of_nat (Max (snd ` set (outgoing ?r a))) / of_nat (sum_list (map snd (outgoing ?r a))))"
    if ne: "outgoing ?r a \<noteq> []"
  proof -
    from reachable_first_max [OF ne, of cfg] obtain pre b m post where
      f: "outgoing ?r a = pre @ (b, m) # post" "\<forall>y \<in> set pre. snd y < m"
         "\<forall>y \<in> set post. snd y \<le> m"
         "predict_next cfg ?r a =
            Inr (if prediction_threshold cfg \<le> of_nat m / of_nat (sum_list (map snd (outgoing ?r a)))
                 then Some b else None,
                 of_nat m / of_nat (sum_list (map snd (outgoing ?r a))))"
      by blast
    have mx: "Max (snd ` set (outgoing ?r a)) = m"
      by (rule first_max_is_Max [OF f(1) f(2) f(3)])
    have "(b, m) \<in> set (outgoing ?r a)" using f(1) by simp
    with f(4) mx show ?thesis by auto
  qed
  then show ?thesis
    by (simp add: Let_def predict_next_none)
qed

text \<open>
  Claim C5, as amended. The successors of \<open>a\<close> are kept in the order in which they were
  first recorded. The successor \<^verbatim>\<open>predict_next\<close> picks has the greatest count, and every
  successor recorded before it has a strictly smaller one: among several with the greatest
  count it is the one first recorded. It is returned as the candidate when its confidence
  reaches the threshold; below the threshold no candidate is returned.
\<close>

theorem predict_next_tie_break:
  "let r = run_router_ops ops new_router; counts = outgoing r a;
       total = sum_list (map snd counts)
   in map fst counts = order_seen (targets (recorded_calls ops) a) \<and>
      (counts \<noteq> [] \<longrightarrow>
         (\<exists>earlier best m later.
            counts = earlier @ (best, m) # later \<and>
            (\<forall>y \<in> set earlier. snd y < m) \<and> (\<forall>y \<in> set later. snd y \<le> m) \<and>
            predict_next cfg r a =
              Inr (if prediction_threshold cfg \<le> of_nat m / of_nat total then Some best else None,
                   of_nat m / of_nat total)))"
  using reachable_first_max [of ops a cfg]
  by (simp add: Let_def outgoing_reachable map_fst_tally)

lemmas router_eval =
  run_router_ops_def record_transition_def outgoing_def counter_get_def new_router_def
  predict_next_def most_common1_def default_config_def Let_def ingest_trace_def
  targets_def order_seen_def consecutive_pairs_def

theorem predict_next_confidence_witness:
  "predict_next default_config
     (run_router_ops [RecordTransition ''A'' ''B'', RecordTransition ''A'' ''C'',
        RecordTransition ''A'' ''D''] new_router) ''A'' = Inr (None, 1 / 3) \<and>
   predict_next default_config
     (run_router_ops [RecordTransition ''A'' ''B'', RecordTransition ''A'' ''C'',
        RecordTransition ''A'' ''D''] new_router) ''B'' = Inr (None, 0)"
  using predict_next_confidence [of "[RecordTransition ''A'' ''B'', RecordTransition ''A'' ''C'',
        RecordTransition ''A'' ''D'']" "''A''" default_config]
  by (simp add: router_eval)

text \<open>
  Claim C5 as stated fails under the default threshold 0.7: with \<open>A \<rightarrow> B\<close> and
  \<open>A \<rightarrow> C\<close> recorded once each, two successors share the greatest count, and
  \<^verbatim>\<open>predict_next\<close> returns no candidate instead of the first recorded one.
\<close>

theorem predict_next_tie_counterexample:
  "predict_next default_config
     (run_router_ops [RecordTransition ''A'' ''B'', RecordTransition ''A'' ''C''] new_router) ''A''
     = Inr (None, 1 / 2)"
  by (simp add: router_eval)

theorem predict_next_tie_break_witness:
  "predict_next (default_config\<lparr>prediction_threshold := 1 / 2\<rparr>)
     (run_router_ops [RecordTransition ''A'' ''B'', RecordTransition ''A'' ''C''] new_router) ''A''
     = Inr (Some ''B'', 1 / 2)"
  using predict_next_tie_break [of "[RecordTransition ''A'' ''B'', RecordTransition ''A'' ''C'']"
      "''A''" "default_config\<lparr>prediction_threshold := 1 / 2\<rparr>"]
  by (simp add: router_eval)

lemma fresh_trace_XYZ:
  assumes "X \<noteq> Y"
  shows "transitions (ingest_trace new_router [X, Y, Z]) = [(X, [(Y, 1)]), (Y, [(Z, 1)])]"
  using assms
  by (simp add: ingest_trace_def record_transition_def outgoing_def counter_get_def
      new_router_def Let_def upt_rec)

text \<open>
  Claim C6. \<^verbatim>\<open>ingest_trace\<close> leaves the router in the state that calling
  \<^verbatim>\<open>record_transition\<close> on every consecutive pair of the sequence, in order, leaves it
  in. On a fresh router, for a trace of agents \<open>X\<close>, \<open>Y\<close>, \<open>Z\<close> with \<open>X\<close> and
  \<open>Y\<close> different and a threshold of at most 1, the prediction after \<open>X\<close> is \<open>Y\<close>
  and the prediction after \<open>Y\<close> is \<open>Z\<close>, each with confidence 1.
\<close>

theorem ingest_trace_records_consecutive_pairs:
  "ingest_trace r s =
     fold (\<lambda>p r'. record_transition r' (fst p) (snd p)) (consecutive_pairs s) r \<and>
   (X \<noteq> Y \<and> prediction_threshold cfg \<le> 1 \<longrightarrow>
      predict_next cfg (ingest_trace new_router [X, Y, Z]) X = Inr (Some Y, 1) \<and>
      predict_next cfg (ingest_trace new_router [X, Y, Z]) Y = Inr (Some Z, 1))"
proof -
  have "record_pair = (\<lambda>p r'. record_transition r' (fst p) (snd p))"
    by (simp add: fun_eq_iff record_pair_def)
  then have "ingest_trace r s =
     fold (\<lambda>p r'. record_transition r' (fst p) (snd p)) (consecutive_pairs s) r"
    using ingest_trace_pairs [of r s] by simp
  moreover have "predict_next cfg (ingest_trace new_router [X, Y, Z]) X = Inr (Some Y, 1) \<and>
      predict_next cfg (ingest_trace new_router [X, Y, Z]) Y = Inr (Some Z, 1)"
    if "X \<noteq> Y" "prediction_threshold cfg \<le> 1"
    using that by (simp add: predict_next_def fresh_trace_XYZ most_common1_def)
  ultimately show ?thesis by blast
qed

theorem ingest_trace_records_consecutive_pairs_witness:
  "''X'' \<noteq> ''Y'' \<and> prediction_threshold default_config \<le> 1 \<and>
   predict_next default_config (ingest_trace new_router [''X'', ''Y'', ''Z'']) ''X'' = Inr (Some ''Y'', 1) \<and>
   predict_next default_config (ingest_trace new_router [''X'', ''Y'', ''Z'']) ''Y'' = Inr (Some ''Z'', 1)"
  using ingest_trace_records_consecutive_pairs [of new_router "[]" "''X''" "''Y''"
      default_config "''Z''"]
  by (simp add: default_config_def)

lemma counter_get_update:
  "counter_get (AList.update k v c) b = (if b = k then v else counter_get c b)"
  by (simp add: counter_get_def update_conv')

lemma record_transition_grows:
  "counter_get (outgoing r a) b \<le> counter_get (outgoing (record_transition r f t) a) b"
  by (simp add: outgoing_record_transition counter_get_update)

lemma fold_record_pair_grows:
  "counter_get (outgoing r a) b \<le> counter_get (outgoing (fold record_pair ps r) a) b"
proof (induction ps arbitrary: r)
  case Nil
  show ?case by simp
next
  case (Cons p ps)
  have "counter_get (outgoing r a) b \<le> counter_get (outgoing (record_pair p r) a) b"
    by (simp add: record_pair_def record_transition_grows)
  also have "\<dots> \<le> counter_get (outgoing (fold record_pair ps (record_pair p r)) a) b"
    by (rule Cons.IH)
  finally show ?case by simp
qed

lemma apply_router_op_grows:
  "counter_get (outgoing r a) b \<le> counter_get (outgoing (apply_router_op op r) a) b"
  by (cases op) (simp_all add: record_transition_grows ingest_trace_pairs fold_record_pair_grows)

lemma total_traces_fold: "total_traces (fold record_pair ps r) = total_traces r + length ps"
  by (induction ps arbitrary: r) (simp_all add: record_pair_def record_transition_def Let_def)

text \<open>
  Claim C7. After any sequence of router operations on a fresh router, the counts of the
  transitions from an agent \<open>a\<close> add up to the number of calls of
  \<^verbatim>\<open>record_transition\<close> with \<open>a\<close> as source (those made by \<^verbatim>\<open>ingest_trace\<close>
  included), and the total of traces is the number of all such calls. No operation, in any
  router state, makes a count smaller.
\<close>

theorem transition_counts_sum_and_grow:
  "sum_list (map snd (outgoing (run_router_ops ops new_router) a)) =
     length (filter (\<lambda>call. fst call = a) (recorded_calls ops)) \<and>
   total_traces (run_router_ops ops new_router) = length (recorded_calls ops) \<and>
   (\<forall>r op b. counter_get (outgoing r a) b \<le> counter_get (outgoing (apply_router_op op r) a) b)"
proof (intro conjI allI)
  show "sum_list (map snd (outgoing (run_router_ops ops new_router) a)) =
     length (filter (\<lambda>call. fst call = a) (recorded_calls ops))"
    by (simp add: outgoing_reachable sum_tally targets_def)
  show "total_traces (run_router_ops ops new_router) = length (recorded_calls ops)"
    by (simp add: run_router_ops_calls total_traces_fold new_router_def)
  show "counter_get (outgoing r a) b \<le> counter_get (outgoing (apply_router_op op r) a) b"
    for r op b
    by (rule apply_router_op_grows)
qed

section \<open>Properties of the cache and of construction\<close>

lemma join_preload_cache [simp]:
  "cache (join_preload a s) = cache s" "config (join_preload a s) = config s"
  "invocations (join_preload a s) = invocations s" "router (join_preload a s) = router s"
  by (simp_all add: join_preload_def split: option.splits)

lemma cache_get_hit:
  "\<not> get_raises (client c) \<Longrightarrow> entries (client c) (build_key a p x) = Some (ttl, v) \<Longrightarrow>
     cache_get c a p x = (Inr (Some v), c\<lparr>hits := hits c + 1\<rparr>)"
  by (simp add: cache_get_def client_get_def)

lemma cache_get_miss:
  "\<not> get_raises (client c) \<Longrightarrow> entries (client c) (build_key a p x) = None \<Longrightarrow>
     cache_get c a p x = (Inr None, c\<lparr>misses := misses c + 1\<rparr>)"
  by (simp add: cache_get_def client_get_def)



lemma cache_put_ok:
  "\<not> setex_raises (client c) \<Longrightarrow>
     cache_put cfg c a p r x =
       (Inr (), c\<lparr>client := (client c)\<lparr>entries := (entries (client c))(build_key a p x \<mapsto> (cache_ttl cfg, r))\<rparr>\<rparr>)"
  by (simp add: cache_put_def client_setex_def)





lemmas chain_eval =
  run_chain_def invoke_agent_def join_preload_def speculate_def cache_get_def cache_put_def
  client_get_def client_setex_def build_key_def new_optimizer_def new_cache_def new_router_def
  empty_server_def echo_bedrock_def collect_completion_def default_config_def Let_def
  should_preload_def predict_next_def most_common1_def record_transition_def outgoing_def
  counter_get_def preload_context_def

lemma chain_session_0: "chain_session 0 = ''chain-0''"
  by (simp add: chain_session_def str_int_def str_nat.simps [of 0] digit_def)




lemma cache_get_counts:
  "cache_get c a p x = (Inr found, c') \<Longrightarrow>
     client c' = client c \<and>
     ((hits c' = hits c + 1 \<and> misses c' = misses c \<and> found \<noteq> None) \<or>
      (hits c' = hits c \<and> misses c' = misses c + 1 \<and> found = None))"
  by (auto simp: cache_get_def split: sum.splits option.splits)

lemma cache_get_error_counts:
  "cache_get c a p x = (Inl e, c') \<Longrightarrow> c' = c"
  by (auto simp: cache_get_def split: sum.splits option.splits)

lemma cache_gets_counts:
  "cache_gets c reqs = Inr c' \<Longrightarrow>
     hits c' + misses c' = hits c + misses c + length reqs \<and> client c' = client c"
proof (induction reqs arbitrary: c)
  case Nil
  then show ?case by simp
next
  case (Cons req reqs)
  obtain a p x where req: "req = (a, p, x)" by (cases req)
  obtain res c1 where g: "cache_get c a p x = (res, c1)" by (cases "cache_get c a p x")
  with Cons.prems req obtain found where f: "res = Inr found" "cache_gets c1 reqs = Inr c'"
    by (cases res) auto
  from cache_get_counts [OF g [unfolded f(1)]] Cons.IH [OF f(2)]
  show ?case by auto
qed

lemma cache_gets_returns:
  "\<not> get_raises (client c) \<Longrightarrow> \<exists>c'. cache_gets c reqs = Inr c'"
proof (induction reqs arbitrary: c)
  case Nil
  show ?case by simp
next
  case (Cons req reqs)
  obtain a p x where req: "req = (a, p, x)" by (cases req)
  have "\<exists>found c1. cache_get c a p x = (Inr found, c1)"
  proof (cases "entries (client c) (build_key a p x)")
    case None
    with Cons.prems show ?thesis by (simp add: cache_get_miss)
  next
    case (Some tv)
    with Cons.prems show ?thesis by (cases tv) (simp add: cache_get_hit)
  qed
  then obtain found c1 where g: "cache_get c a p x = (Inr found, c1)" by blast
  from cache_get_counts [OF g] Cons.prems have "\<not> get_raises (client c1)" by simp
  from Cons.IH [OF this] g req show ?case by simp
qed

lemma round_half_even_near: "\<bar>of_int (round_half_even q) - q\<bar> \<le> 1 / 2"
proof -
  have "of_int \<lfloor>q\<rfloor> \<le> q" "q < of_int \<lfloor>q\<rfloor> + 1" by linarith+
  then show ?thesis
    by (auto simp: round_half_even_def Let_def abs_le_iff)
qed

lemma nearest_thousandth_near: "\<bar>nearest_thousandth q - q\<bar> \<le> 1 / 2000"
proof -
  let ?n = "of_int (round_half_even (q * 1000)) :: rat"
  have "nearest_thousandth q - q = (?n - q * 1000) / 1000"
    by (simp add: nearest_thousandth_def diff_divide_distrib)
  also have "\<bar>\<dots>\<bar> = \<bar>?n - q * 1000\<bar> / 1000"
    by (simp only: abs_divide)
  also have "\<dots> \<le> (1 / 2) / 1000"
    by (intro divide_right_mono round_half_even_near) simp
  finally show ?thesis by simp
qed

lemma nearest_thousandth_rounds: "rounds_to_thousandths nearest_thousandth"
  unfolding rounds_to_thousandths_def
proof (intro allI conjI)
  fix q
  show "\<exists>k::int. nearest_thousandth q = of_int k / 1000"
    by (auto simp: nearest_thousandth_def)
  show "\<bar>nearest_thousandth q - q\<bar> \<le> 1 / 2000"
    by (rule nearest_thousandth_near)
qed

lemma rounded_third:
  assumes "rounds_to_thousandths round3"
  shows "round3 (1 / 3) = 333 / 1000"
proof -
  from assms obtain k :: int where k: "round3 (1 / 3) = of_int k / 1000"
    and near: "\<bar>round3 (1 / 3) - 1 / 3\<bar> \<le> 1 / 2000"
    unfolding rounds_to_thousandths_def by blast
  from near have "(of_int k :: rat) / 1000 - 1 / 3 \<le> 1 / 2000"
      "- (1 / 2000) \<le> (of_int k :: rat) / 1000 - 1 / 3"
    unfolding k by linarith+
  then have "(of_int k :: rat) < 334" "(332 :: rat) < of_int k" by linarith+
  then have "k < 334" "332 < k" by simp_all
  then have "k = 333" by linarith
  with k show ?thesis by simp
qed

text \<open>
  Claim C3, as amended. A \<^verbatim>\<open>get\<close> call that returns adds one to exactly one of the
  two counters. After a sequence of \<^verbatim>\<open>get\<close> calls on a fresh cache has completed, hits
  plus misses is the number of calls, and \<^verbatim>\<open>hit_rate\<close> is hits divided by hits plus
  misses, and 0 when no call was made. \<^verbatim>\<open>stats\<close> reports the two counters, and as rate
  what \<^verbatim>\<open>round\<close> makes of \<^verbatim>\<open>hit_rate\<close>: a multiple of one thousandth within 0.0005
  of it. On a store that does not raise, every sequence completes.
\<close>

theorem cache_accounting:
  "(cache_get c agent p ctx = (Inr found, c1) \<longrightarrow>
      (hits c1 = hits c + 1 \<and> misses c1 = misses c) \<or>
      (hits c1 = hits c \<and> misses c1 = misses c + 1)) \<and>
   (cache_gets (new_cache server) reqs = Inr c' \<longrightarrow>
      hits c' + misses c' = length reqs \<and>
      hit_rate c' = (if reqs = [] then 0 else of_nat (hits c') / of_nat (hits c' + misses c')) \<and>
      fst (cache_stats round3 c') = hits c' \<and> fst (snd (cache_stats round3 c')) = misses c' \<and>
      (rounds_to_thousandths round3 \<longrightarrow>
         (\<exists>k::int. snd (snd (cache_stats round3 c')) = of_int k / 1000) \<and>
         \<bar>snd (snd (cache_stats round3 c')) - hit_rate c'\<bar> \<le> 1 / 2000)) \<and>
   (\<not> get_raises server \<longrightarrow> (\<exists>c''. cache_gets (new_cache server) reqs = Inr c''))"
proof (intro conjI impI)
  show "(hits c1 = hits c + 1 \<and> misses c1 = misses c) \<or>
      (hits c1 = hits c \<and> misses c1 = misses c + 1)"
    if "cache_get c agent p ctx = (Inr found, c1)"
    using cache_get_counts [OF that] by auto
  show "\<exists>c''. cache_gets (new_cache server) reqs = Inr c''" if "\<not> get_raises server"
    using that by (intro cache_gets_returns) (simp add: new_cache_def)
next
  assume run: "cache_gets (new_cache server) reqs = Inr c'"
  from cache_gets_counts [OF run] show len: "hits c' + misses c' = length reqs"
    by (simp add: new_cache_def)
  show "hit_rate c' = (if reqs = [] then 0 else of_nat (hits c') / of_nat (hits c' + misses c'))"
    using len by (auto simp: hit_rate_def Let_def)
  show "fst (cache_stats round3 c') = hits c'" "fst (snd (cache_stats round3 c')) = misses c'"
    by (simp_all add: cache_stats_def)
  assume r: "rounds_to_thousandths round3"
  then show "\<exists>k::int. snd (snd (cache_stats round3 c')) = of_int k / 1000"
    unfolding rounds_to_thousandths_def cache_stats_def by simp
  from r show "\<bar>snd (snd (cache_stats round3 c')) - hit_rate c'\<bar> \<le> 1 / 2000"
    unfolding rounds_to_thousandths_def cache_stats_def by simp
qed

lemma three_requests_run:
  "cache_gets (new_cache one_entry_server) three_requests =
     Inr \<lparr>client = one_entry_server, hits = 1, misses = 2\<rparr>"
  by (simp add: three_requests_def one_entry_server_def new_cache_def cache_get_def
      client_get_def build_key_def)

lemma rate_one_of_three:
  "hit_rate \<lparr>client = one_entry_server, hits = 1, misses = 2\<rparr> = 1 / 3"
  by (simp add: hit_rate_def)

text \<open>
  Claim C3 as stated fails for the rate \<^verbatim>\<open>stats\<close> reports: after one hit and two misses
  the rate is one third, which is no multiple of one thousandth; whatever the rounding
  does with ties, \<^verbatim>\<open>stats\<close> reports 0.333.
\<close>

theorem reported_hit_rate_counterexample:
  "cache_gets (new_cache one_entry_server) three_requests =
     Inr \<lparr>client = one_entry_server, hits = 1, misses = 2\<rparr> \<and>
   rounds_to_thousandths nearest_thousandth \<and>
   cache_stats nearest_thousandth \<lparr>client = one_entry_server, hits = 1, misses = 2\<rparr> =
     (1, 2, 333 / 1000) \<and>
   \<not> (\<exists>round3. rounds_to_thousandths round3 \<and>
         snd (snd (cache_stats round3 \<lparr>client = one_entry_server, hits = 1, misses = 2\<rparr>)) \<noteq>
           333 / 1000) \<and>
   (333 / 1000 :: rat) \<noteq> of_nat 1 / of_nat (1 + 2)"
proof (intro conjI)
  show "cache_gets (new_cache one_entry_server) three_requests =
     Inr \<lparr>client = one_entry_server, hits = 1, misses = 2\<rparr>"
    by (rule three_requests_run)
  show "rounds_to_thousandths nearest_thousandth"
    by (rule nearest_thousandth_rounds)
  show "cache_stats nearest_thousandth \<lparr>client = one_entry_server, hits = 1, misses = 2\<rparr> =
     (1, 2, 333 / 1000)"
    unfolding cache_stats_def rate_one_of_three rounded_third [OF nearest_thousandth_rounds]
    by simp
  show "\<not> (\<exists>round3. rounds_to_thousandths round3 \<and>
         snd (snd (cache_stats round3 \<lparr>client = one_entry_server, hits = 1, misses = 2\<rparr>)) \<noteq>
           333 / 1000)"
  proof (rule notI, elim exE conjE)
    fix round3 :: "rat \<Rightarrow> rat"
    assume "rounds_to_thousandths round3"
      and "snd (snd (cache_stats round3 \<lparr>client = one_entry_server, hits = 1, misses = 2\<rparr>)) \<noteq>
           333 / 1000"
    then show False
      unfolding cache_stats_def rate_one_of_three using rounded_third [of round3] by simp
  qed
  show "(333 / 1000 :: rat) \<noteq> of_nat 1 / of_nat (1 + 2)"
    by simp
qed

theorem cache_accounting_witness:
  "cache_gets (new_cache one_entry_server) three_requests =
     Inr \<lparr>client = one_entry_server, hits = 1, misses = 2\<rparr> \<and>
   \<not> get_raises one_entry_server \<and>
   rounds_to_thousandths nearest_thousandth \<and>
   hits \<lparr>client = one_entry_server, hits = 1, misses = 2\<rparr> +
     misses \<lparr>client = one_entry_server, hits = 1, misses = 2\<rparr> = length three_requests \<and>
   hit_rate \<lparr>client = one_entry_server, hits = 1, misses = 2\<rparr> = 1 / 3 \<and>
   \<bar>snd (snd (cache_stats nearest_thousandth \<lparr>client = one_entry_server, hits = 1, misses = 2\<rparr>))
      - 1 / 3\<bar> \<le> 1 / 2000"
proof -
  let ?c = "\<lparr>client = one_entry_server, hits = 1, misses = 2\<rparr>"
  have run: "cache_gets (new_cache one_entry_server) three_requests = Inr ?c"
    by (rule three_requests_run)
  have up: "\<not> get_raises one_entry_server"
    by (simp add: one_entry_server_def)
  note r = nearest_thousandth_rounds
  from cache_accounting [where server = one_entry_server and reqs = three_requests and c' = ?c
      and ?round3.0 = nearest_thousandth] run r
  have len: "hits ?c + misses ?c = length three_requests"
    and near: "\<bar>snd (snd (cache_stats nearest_thousandth ?c)) - hit_rate ?c\<bar> \<le> 1 / 2000"
    by blast+
  from run up r len near [unfolded rate_one_of_three] rate_one_of_three show ?thesis
    by blast
qed




section \<open>Properties of the chain orchestrator\<close>

text \<open>
  Claim C10. \<^verbatim>\<open>run_chain\<close> on the empty list of agents returns the empty list of
  results and leaves the whole optimizer as it was: no cache lookup (both counters and the
  server unchanged), no remote call, no preload, the same transition table.
\<close>

theorem run_chain_empty: "run_chain br pre now [] input s = (Inr [], s)"
  by (simp add: run_chain_def)

lemma sum_list_update_ge: "(v::nat) \<le> sum_list (map snd (AList.update k v c))"
  by (induction c) auto

lemma update_not_Nil: "AList.update k v c \<noteq> []"
  by (cases c) auto

lemma most_common1_not_Nil: "c \<noteq> [] \<Longrightarrow> \<exists>b m. most_common1 c = [(b, m)]"
  by (cases c) (auto simp: most_common1_def intro: prod.exhaust)

lemma should_preload_after_record:
  "\<exists>predicted. should_preload cfg (record_transition r a b) a = Inr predicted"
proof -
  let ?c = "AList.update b (counter_get (outgoing r a) b + 1) (outgoing r a)"
  have m: "map_of (transitions (record_transition r a b)) a = Some ?c"
    by (simp add: record_transition_def Let_def update_conv')
  have ne: "?c \<noteq> []" by (rule update_not_Nil)
  from most_common1_not_Nil [OF ne] obtain x m where mc: "most_common1 ?c = [(x, m)]" by blast
  have "1 \<le> sum_list (map snd ?c)"
    using sum_list_update_ge [of "counter_get (outgoing r a) b + 1" b "outgoing r a"] by simp
  then have tot: "sum_list (map snd ?c) \<noteq> 0" by linarith
  have "\<exists>res. predict_next cfg (record_transition r a b) a = Inr res"
    using m ne mc tot by (simp add: predict_next_def Let_def del: sum_list_eq_0_iff)
  then show ?thesis
    by (auto simp: should_preload_def split: option.splits prod.splits)
qed

lemma core_join_preload: "core (join_preload a s) = core s"
  by (simp add: core_def)

lemma speculate_result:
  "\<exists>s'. speculate pre sid a rest s = (Inr (), s') \<and>
     core s' = core (case rest of [] \<Rightarrow> s | nxt # _ \<Rightarrow> s\<lparr>router := record_transition (router s) a nxt\<rparr>)"
proof (cases rest)
  case Nil
  then show ?thesis by (simp add: speculate_def)
next
  case (Cons nxt rest')
  from should_preload_after_record [of "config s" "router s" a nxt]
  obtain predicted where "should_preload (config s) (record_transition (router s) a nxt) a = Inr predicted"
    by blast
  with Cons show ?thesis
    by (cases predicted) (simp_all add: speculate_def Let_def core_def)
qed

lemma invoke_agent_core:
  assumes "core s = core t"
  shows "fst (invoke_agent br a p x s) = fst (invoke_agent br a p x t) \<and>
         core (snd (invoke_agent br a p x s)) = core (snd (invoke_agent br a p x t))"
  using assms
  by (auto simp: core_def invoke_agent_def Let_def split: prod.splits sum.splits option.splits)

lemma chain_loop_without_preload:
  "core s = core t \<Longrightarrow>
     fst (chain_loop br pre sid ids cur acc s) = fst (chain_loop_no_preload br sid ids cur acc t) \<and>
     core (snd (chain_loop br pre sid ids cur acc s)) =
       core (snd (chain_loop_no_preload br sid ids cur acc t))"
proof (induction ids arbitrary: cur acc s t)
  case Nil
  then show ?case by simp
next
  case (Cons a rest)
  let ?p = "\<lparr>input_text = Some cur, session_id = Some sid\<rparr>"
  obtain res s2 where i1: "invoke_agent br a ?p (Some sid) (join_preload a s) = (res, s2)"
    by (cases "invoke_agent br a ?p (Some sid) (join_preload a s)")
  obtain res' t2 where i2: "invoke_agent br a ?p (Some sid) t = (res', t2)"
    by (cases "invoke_agent br a ?p (Some sid) t")
  have "core (join_preload a s) = core t"
    using Cons.prems by (simp add: core_join_preload)
  from invoke_agent_core [OF this, of br a ?p "Some sid"] i1 i2
  have same: "res' = res" "core s2 = core t2" by simp_all
  show ?case
  proof (cases res)
    case (Inl e)
    with i1 i2 same show ?thesis by simp
  next
    case (Inr result)
    let ?t3 = "case rest of [] \<Rightarrow> t2 | nxt # _ \<Rightarrow> t2\<lparr>router := record_transition (router t2) a nxt\<rparr>"
    from speculate_result [of pre sid a rest s2] obtain s3 where
      sp: "speculate pre sid a rest s2 = (Inr (), s3)"
          "core s3 = core (case rest of [] \<Rightarrow> s2
                           | nxt # _ \<Rightarrow> s2\<lparr>router := record_transition (router s2) a nxt\<rparr>)"
      by blast
    have "core s3 = core ?t3"
      using sp(2) same(2) by (auto simp: core_def split: list.splits)
    from Cons.IH [OF this, of "output_text result" "acc @ [result]"] i1 i2 same Inr sp(1)
    show ?thesis by simp
  qed
qed

text \<open>
  For a remote without session state no preload path reaches the results.
\<close>

lemma run_chain_any_preload_path:
  "fst (run_chain br pre now ids input s) = fst (run_chain_no_preload br now ids input s) \<and>
   fst (run_chain br pre now ids input s) =
     fst (run_chain br (\<lambda>agent ctx. ProbeFailed) now ids input s) \<and>
   fst (run_chain br pre now ids input s) =
     fst (run_chain br (preload_context br) now ids input s) \<and>
   cache (snd (run_chain br pre now ids input s)) =
     cache (snd (run_chain_no_preload br now ids input s)) \<and>
   invocations (snd (run_chain br pre now ids input s)) =
     invocations (snd (run_chain_no_preload br now ids input s))"
proof -
  have eq: "fst (run_chain br q now ids input s) = fst (run_chain_no_preload br now ids input s) \<and>
      core (snd (run_chain br q now ids input s)) =
        core (snd (run_chain_no_preload br now ids input s))" for q
    unfolding run_chain_def run_chain_no_preload_def
    by (rule chain_loop_without_preload) simp
  from eq [of pre] eq [of "\<lambda>agent ctx. ProbeFailed"] eq [of "preload_context br"]
  show ?thesis by (simp add: core_def)
qed

lemma invoke_agent_stateful_core:
  assumes "core s = core t"
  shows "fst (invoke_agent_stateful br a p x s m) = fst (invoke_agent_stateful br a p x t m) \<and>
         core (fst (snd (invoke_agent_stateful br a p x s m))) =
           core (fst (snd (invoke_agent_stateful br a p x t m))) \<and>
         snd (snd (invoke_agent_stateful br a p x s m)) =
           snd (snd (invoke_agent_stateful br a p x t m))"
  using assms
  by (auto simp: core_def invoke_agent_stateful_def Let_def
      split: prod.splits sum.splits option.splits)

lemma speculate_stateful_result:
  assumes "(\<forall>m agent ctx. snd (pp m agent ctx) = m) \<or> (\<forall>n. ex n = Stalled)"
  shows "\<exists>s'. speculate_stateful pp ex sid a rest s m = (Inr (), s', m) \<and>
     core s' = core (case rest of [] \<Rightarrow> s | nxt # _ \<Rightarrow> s\<lparr>router := record_transition (router s) a nxt\<rparr>)"
proof (cases rest)
  case Nil
  then show ?thesis by (simp add: speculate_stateful_def)
next
  case (Cons nxt rest')
  let ?s1 = "s\<lparr>router := record_transition (router s) a nxt\<rparr>"
  from should_preload_after_record [of "config s" "router s" a nxt]
  obtain predicted where sp: "should_preload (config s) (record_transition (router s) a nxt) a = Inr predicted"
    by blast
  show ?thesis
  proof (cases predicted)
    case None
    with Cons sp show ?thesis by (simp add: speculate_stateful_def Let_def core_def)
  next
    case (Some b)
    show ?thesis
    proof (cases "ex (length (preloads ?s1))")
      case Stalled
      with Cons sp Some show ?thesis by (simp add: speculate_stateful_def Let_def core_def)
    next
      case Prompt
      with assms have keep: "\<forall>m agent ctx. snd (pp m agent ctx) = m" by auto
      obtain fut m' where p: "pp m b (Some sid) = (fut, m')" by (cases "pp m b (Some sid)")
      with keep have "m' = m" by (metis snd_conv)
      with Cons sp Some Prompt p show ?thesis
        by (simp add: speculate_stateful_def Let_def core_def)
    qed
  qed
qed

lemma chain_loop_stateful_without_preload:
  assumes "(\<forall>m agent ctx. snd (pp m agent ctx) = m) \<or> (\<forall>n. ex n = Stalled)"
  shows "core s = core t \<Longrightarrow>
     fst (chain_loop_stateful br pp ex sid ids cur acc s m) =
       fst (chain_loop_stateful_no_preload br sid ids cur acc t m) \<and>
     snd (snd (chain_loop_stateful br pp ex sid ids cur acc s m)) =
       snd (snd (chain_loop_stateful_no_preload br sid ids cur acc t m))"
proof (induction ids arbitrary: cur acc s t m)
  case Nil
  then show ?case by simp
next
  case (Cons a rest)
  let ?p = "\<lparr>input_text = Some cur, session_id = Some sid\<rparr>"
  obtain res s2 m2 where i1:
    "invoke_agent_stateful br a ?p (Some sid) (join_preload a s) m = (res, s2, m2)"
    by (cases "invoke_agent_stateful br a ?p (Some sid) (join_preload a s) m")
  obtain res' t2 m2' where i2: "invoke_agent_stateful br a ?p (Some sid) t m = (res', t2, m2')"
    by (cases "invoke_agent_stateful br a ?p (Some sid) t m")
  have "core (join_preload a s) = core t"
    using Cons.prems by (simp add: core_join_preload)
  from invoke_agent_stateful_core [OF this, of br a ?p "Some sid" m] i1 i2
  have same: "res' = res" "core s2 = core t2" "m2' = m2" by simp_all
  show ?case
  proof (cases res)
    case (Inl e)
    with i1 i2 same show ?thesis by simp
  next
    case (Inr result)
    let ?t3 = "case rest of [] \<Rightarrow> t2 | nxt # _ \<Rightarrow> t2\<lparr>router := record_transition (router t2) a nxt\<rparr>"
    from speculate_stateful_result [OF assms, of sid a rest s2 m2] obtain s3 where
      sp: "speculate_stateful pp ex sid a rest s2 m2 = (Inr (), s3, m2)"
          "core s3 = core (case rest of [] \<Rightarrow> s2
                           | nxt # _ \<Rightarrow> s2\<lparr>router := record_transition (router s2) a nxt\<rparr>)"
      by blast
    have "core s3 = core ?t3"
      using sp(2) same(2) by (auto simp: core_def split: list.splits)
    from Cons.IH [OF this, of "output_text result" "acc @ [result]" m2] i1 i2 same Inr sp(1)
    show ?thesis by simp
  qed
qed

text \<open>
  Claim C8, as amended. The orchestrator lets no outcome of a preload into a step's result:
  the join result, a timeout, a failed probe and the handle map are never read by a step.
  What a preload can change is the remote. When the preload path leaves the state of the
  remote as it was (as a probe that fails before it reaches the remote does), or when no
  probe gets to the remote while the chain runs, the results of \<^verbatim>\<open>run_chain\<close> and the
  state of the remote after it are those of the chain with preloading disabled, for every
  remote, chain, input and schedule.
\<close>

theorem preload_reaches_results_through_remote_only:
  "((\<forall>m agent ctx. snd (pp m agent ctx) = m) \<longrightarrow>
      fst (run_chain_stateful br pp ex now ids input s m) =
        fst (run_chain_stateful_no_preload br now ids input s m) \<and>
      snd (snd (run_chain_stateful br pp ex now ids input s m)) =
        snd (snd (run_chain_stateful_no_preload br now ids input s m))) \<and>
   ((\<forall>n. ex n = Stalled) \<longrightarrow>
      fst (run_chain_stateful br pp ex now ids input s m) =
        fst (run_chain_stateful_no_preload br now ids input s m) \<and>
      snd (snd (run_chain_stateful br pp ex now ids input s m)) =
        snd (snd (run_chain_stateful_no_preload br now ids input s m))) \<and>
   fst (run_chain_stateful br (\<lambda>m agent ctx. (ProbeFailed, m)) ex now ids input s m) =
     fst (run_chain_stateful_no_preload br now ids input s m)"
proof (intro conjI impI)
  assume h: "\<forall>m agent ctx. snd (pp m agent ctx) = m"
  then have "(\<forall>m agent ctx. snd (pp m agent ctx) = m) \<or> (\<forall>n. ex n = Stalled)" by blast
  from chain_loop_stateful_without_preload [OF this, of s s br "chain_session now" ids input "[]" m]
  show "fst (run_chain_stateful br pp ex now ids input s m) =
        fst (run_chain_stateful_no_preload br now ids input s m)"
    and "snd (snd (run_chain_stateful br pp ex now ids input s m)) =
        snd (snd (run_chain_stateful_no_preload br now ids input s m))"
    by (simp_all add: run_chain_stateful_def run_chain_stateful_no_preload_def)
next
  assume h: "\<forall>n. ex n = Stalled"
  then have "(\<forall>m agent ctx. snd (pp m agent ctx) = m) \<or> (\<forall>n. ex n = Stalled)" by blast
  from chain_loop_stateful_without_preload [OF this, of s s br "chain_session now" ids input "[]" m]
  show "fst (run_chain_stateful br pp ex now ids input s m) =
        fst (run_chain_stateful_no_preload br now ids input s m)"
    and "snd (snd (run_chain_stateful br pp ex now ids input s m)) =
        snd (snd (run_chain_stateful_no_preload br now ids input s m))"
    by (simp_all add: run_chain_stateful_def run_chain_stateful_no_preload_def)
next
  let ?pp = "\<lambda>(m::'a) (agent::string) (ctx::request_context). (ProbeFailed, m)"
  have "(\<forall>m agent ctx. snd (?pp m agent ctx) = m) \<or> (\<forall>n. ex n = Stalled)" by simp
  from chain_loop_stateful_without_preload [OF this, of s s br "chain_session now" ids input "[]" m]
  show "fst (run_chain_stateful br ?pp ex now ids input s m) =
        fst (run_chain_stateful_no_preload br now ids input s m)"
    by (simp add: run_chain_stateful_def run_chain_stateful_no_preload_def)
qed

text \<open>
  With a remote that keeps no state, the orchestrator of this section is the one above.
\<close>

lemma invoke_agent_stateless_instance:
  "invoke_agent_stateful (\<lambda>m a sid t. (f a sid t, m)) a p x s m =
     (case invoke_agent f a p x s of (r, s') \<Rightarrow> (r, s', m))"
  by (auto simp: invoke_agent_stateful_def invoke_agent_def Let_def
      split: prod.splits sum.splits option.splits)

lemma chain_loop_stateless_instance:
  "chain_loop_stateful_no_preload (\<lambda>m a sid t. (f a sid t, m)) sid ids cur acc s m =
     (case chain_loop_no_preload f sid ids cur acc s of (r, s') \<Rightarrow> (r, s', m))"
proof (induction ids arbitrary: cur acc s)
  case Nil
  show ?case by simp
next
  case (Cons a rest)
  show ?case
    by (simp add: invoke_agent_stateless_instance Cons.IH split: prod.splits sum.splits)
qed

lemmas stateful_eval =
  run_chain_stateful_def run_chain_stateful_no_preload_def invoke_agent_stateful_def
  speculate_stateful_def preload_context_stateful_def session_remote_def

text \<open>
  Claim C8 as stated fails. The probe is a call of the remote capability to the agent about
  to run, under the chain's own session identifier. With a remote that remembers its
  sessions and a router that predicts \<open>b\<close> after \<open>a\<close>, the probe reaches the remote
  before the second step, which is then answered warm; with preloading disabled it is
  answered cold.
\<close>

theorem preload_counterexample:
  "fst (run_chain_stateful session_remote (preload_context_stateful session_remote)
          (\<lambda>n. Prompt) 0 [''a'', ''b''] ''x'' (new_optimizer None empty_server) []) =
     Inr [\<lparr>agent_id = ''a'', output_text = ''cold x''\<rparr>,
          \<lparr>agent_id = ''b'', output_text = ''warm cold x''\<rparr>] \<and>
   fst (run_chain_stateful_no_preload session_remote 0 [''a'', ''b''] ''x''
          (new_optimizer None empty_server) []) =
     Inr [\<lparr>agent_id = ''a'', output_text = ''cold x''\<rparr>,
          \<lparr>agent_id = ''b'', output_text = ''cold cold x''\<rparr>]"
  by (simp add: stateful_eval chain_eval chain_session_0)

theorem preload_reaches_results_through_remote_only_witness:
  "(\<forall>m agent ctx. snd ((\<lambda>(m :: (string \<times> string) list) (agent :: string)
        (ctx :: request_context). (ProbeFailed, m)) m agent ctx) = m) \<and>
   (\<forall>n. (\<lambda>n. Stalled) n = Stalled) \<and>
   fst (run_chain_stateful session_remote (\<lambda>m agent ctx. (ProbeFailed, m)) (\<lambda>n. Prompt) 0
          [''a'', ''b''] ''x'' (new_optimizer None empty_server) []) =
     Inr [\<lparr>agent_id = ''a'', output_text = ''cold x''\<rparr>,
          \<lparr>agent_id = ''b'', output_text = ''cold cold x''\<rparr>] \<and>
   fst (run_chain_stateful session_remote (preload_context_stateful session_remote)
          (\<lambda>n. Stalled) 0 [''a'', ''b''] ''x'' (new_optimizer None empty_server) []) =
     Inr [\<lparr>agent_id = ''a'', output_text = ''cold x''\<rparr>,
          \<lparr>agent_id = ''b'', output_text = ''cold cold x''\<rparr>]"
proof -
  let ?s = "new_optimizer None empty_server"
  let ?fail = "\<lambda>(m :: (string \<times> string) list) (agent :: string) (ctx :: request_context).
      (ProbeFailed, m)"
  have off: "fst (run_chain_stateful_no_preload session_remote 0 [''a'', ''b''] ''x'' ?s []) =
     Inr [\<lparr>agent_id = ''a'', output_text = ''cold x''\<rparr>,
          \<lparr>agent_id = ''b'', output_text = ''cold cold x''\<rparr>]"
    by (simp add: stateful_eval chain_eval chain_session_0)
  have h1: "\<forall>m agent ctx. snd (?fail m agent ctx) = m" by simp
  have h2: "\<forall>n. (\<lambda>n. Stalled) n = Stalled" by simp
  from preload_reaches_results_through_remote_only [where pp = ?fail and ex = "\<lambda>n. Prompt"
      and br = session_remote and now = 0 and ids = "[''a'', ''b'']" and input = "''x''"
      and s = ?s and m = "[]"] h1
  have a: "fst (run_chain_stateful session_remote ?fail (\<lambda>n. Prompt) 0 [''a'', ''b''] ''x'' ?s []) =
      fst (run_chain_stateful_no_preload session_remote 0 [''a'', ''b''] ''x'' ?s [])"
    by blast
  from preload_reaches_results_through_remote_only [where
      pp = "preload_context_stateful session_remote" and ex = "\<lambda>n. Stalled"
      and br = session_remote and now = 0 and ids = "[''a'', ''b'']" and input = "''x''"
      and s = ?s and m = "[]"] h2
  have b: "fst (run_chain_stateful session_remote (preload_context_stateful session_remote)
        (\<lambda>n. Stalled) 0 [''a'', ''b''] ''x'' ?s []) =
      fst (run_chain_stateful_no_preload session_remote 0 [''a'', ''b''] ''x'' ?s [])"
    by blast
  from h1 h2 a b off show ?thesis by simp
qed

lemma core_fields:
  "core s = core t \<Longrightarrow> cache s = cache t \<and> invocations s = invocations t \<and> config s = config t"
  by (simp add: core_def)







lemma stored_join_preload [simp]: "stored (join_preload a s) = stored s"
  by (simp add: stored_def)







end
